theory Spec2Isabelle
  imports Main "HOL-Library.Multiset"
begin

section \<open>Data model\<close>

text \<open>
  Articles, steps and fallback paths are plain JavaScript objects. A property that the
  code guards with a truthiness test or with optional chaining (\<open>article.steps\<close>,
  \<open>article.fallbacks\<close>, \<open>fallback.steps\<close>, \<open>article.tags\<close>, \<open>article.product\<close>,
  \<open>article.title\<close>) is an \<open>option\<close>: \<open>None\<close> is the missing property. An article
  argument is an \<open>article option\<close>: \<open>None\<close> is \<open>null\<close>/\<open>undefined\<close>.
  Strings are lists of code units below 256 (\<open>char\<close>).
\<close>

record step =
  step_id :: string
  step_text :: string

record fallback =
  fb_id :: string
  fb_steps :: "step list option"

record article =
  art_id :: nat
  art_title :: "string option"
  art_tags :: "string list option"
  art_product :: "string option"
  art_steps :: "step list option"
  art_fallbacks :: "fallback list option"

type_synonym timestamp = string

record failure_record =
  f_stepId :: string
  f_reasonCategory :: string
  f_note :: string
  f_timestamp :: timestamp

text \<open>
  \<open>this.state\<close> of \<open>StepperStateMachine\<close>. \<open>completedStepIds\<close> is a JavaScript \<open>Set\<close>:
  insertion ordered, without duplicates; it is the list of its elements in insertion
  order. \<open>currentStepIndex\<close> is an integer, so that a decrement below zero would show.
\<close>

record runner_state =
  selectedArticleId :: "nat option"
  activePath :: string
  currentStepIndex :: int
  completedStepIds :: "string list"
  attemptedPaths :: "(string \<times> timestamp) list"
  failureHistory :: "failure_record list"

section \<open>The stepper state machine (src/stepper.js)\<close>

text \<open>\<open>Set.prototype.add\<close>: appends the element unless it is already a member.\<close>

definition set_add :: "'a \<Rightarrow> 'a list \<Rightarrow> 'a list" where
  "set_add x xs = (if x \<in> set xs then xs else xs @ [x])"

text \<open>\<open>reset()\<close> replaces the state by the initial one.\<close>

definition reset :: runner_state where
  "reset = \<lparr> selectedArticleId = None, activePath = ''main'', currentStepIndex = 0,
             completedStepIds = [], attemptedPaths = [], failureHistory = [] \<rparr>"

text \<open>\<open>article.fallbacks?.find(f => f.id === this.state.activePath)\<close>\<close>

definition find_fallback :: "article \<Rightarrow> string \<Rightarrow> fallback option" where
  "find_fallback a p =
     (case art_fallbacks a of
        None \<Rightarrow> None
      | Some fs \<Rightarrow> find (\<lambda>f. fb_id f = p) fs)"

definition getTotalSteps :: "article option \<Rightarrow> runner_state \<Rightarrow> nat" where
  "getTotalSteps article s =
     (case article of
        None \<Rightarrow> 0
      | Some a \<Rightarrow>
          if activePath s = ''main'' then
            (case art_steps a of Some ss \<Rightarrow> length ss | None \<Rightarrow> 0)
          else
            (case find_fallback a (activePath s) of
               None \<Rightarrow> 0
             | Some f \<Rightarrow> (case fb_steps f of Some ss \<Rightarrow> length ss | None \<Rightarrow> 0)))"

definition getStepsForActivePath :: "article option \<Rightarrow> runner_state \<Rightarrow> step list" where
  "getStepsForActivePath article s =
     (case article of
        None \<Rightarrow> []
      | Some a \<Rightarrow>
          if activePath s = ''main'' then
            (case art_steps a of Some ss \<Rightarrow> ss | None \<Rightarrow> [])
          else
            (case find_fallback a (activePath s) of
               None \<Rightarrow> []
             | Some f \<Rightarrow> (case fb_steps f of Some ss \<Rightarrow> ss | None \<Rightarrow> [])))"

text \<open>
  \<open>getCurrentStep\<close>: \<open>null\<close> when there is no article or the index has reached the
  length; \<open>steps[i]\<close> otherwise, which JavaScript evaluates to \<open>undefined\<close> for a negative
  index. Both \<open>null\<close> and \<open>undefined\<close> are \<open>None\<close>: the callers only test them with \<open>!\<close>.
\<close>

definition getCurrentStep :: "article option \<Rightarrow> runner_state \<Rightarrow> step option" where
  "getCurrentStep article s =
     (case article of
        None \<Rightarrow> None
      | Some a \<Rightarrow>
          (let steps = getStepsForActivePath article s in
           if currentStepIndex s \<ge> int (length steps) then None
           else if currentStepIndex s < 0 then None
           else Some (steps ! nat (currentStepIndex s))))"

text \<open>
  \<open>startArticle(articleId, article)\<close>. The time read by \<open>new Date().toISOString()\<close> is the
  argument \<open>now\<close>. The result is the new state and the returned object
  \<open>{totalSteps, currentStep}\<close>.
\<close>

definition startArticle ::
  "nat \<Rightarrow> article option \<Rightarrow> timestamp \<Rightarrow> runner_state \<times> (nat \<times> step option)" where
  "startArticle articleId article now =
     (let s0 = reset;
          s1 = s0\<lparr>selectedArticleId := Some articleId\<rparr>;
          s2 = s1\<lparr>activePath := ''main''\<rparr>;
          s3 = s2\<lparr>currentStepIndex := 0\<rparr>;
          s4 = s3\<lparr>attemptedPaths := attemptedPaths s3 @ [(''main'', now)]\<rparr>
      in (s4, (getTotalSteps article s4, getCurrentStep article s4)))"

text \<open>
  The object returned by \<open>continue\<close>: \<open>{completed: true}\<close> alone when there is no current
  step, the four fields otherwise.
\<close>

datatype continue_result =
  NoCurrentStep
| Advanced bool "step option" int nat

fun completed :: "continue_result \<Rightarrow> bool" where
  "completed NoCurrentStep = True"
| "completed (Advanced c n i t) = c"

definition continue :: "article option \<Rightarrow> runner_state \<Rightarrow> runner_state \<times> continue_result" where
  "continue article s =
     (case getCurrentStep article s of
        None \<Rightarrow> (s, NoCurrentStep)
      | Some currentStep \<Rightarrow>
          (let s1 = s\<lparr>completedStepIds := set_add (step_id currentStep) (completedStepIds s)\<rparr>;
               s2 = s1\<lparr>currentStepIndex := currentStepIndex s1 + 1\<rparr>;
               steps = getStepsForActivePath article s2;
               isLastStep = (currentStepIndex s2 \<ge> int (length steps))
           in (s2, Advanced isLastStep
                     (if isLastStep then None else getCurrentStep article s2)
                     (currentStepIndex s2)
                     (getTotalSteps article s2))))"

text \<open>\<open>back()\<close> returns \<open>{success: true, currentStepIndex}\<close> or \<open>{success: false, message}\<close>.\<close>

datatype back_result =
  BackSuccess int
| BackFailure string

fun success :: "back_result \<Rightarrow> bool" where
  "success (BackSuccess i) = True"
| "success (BackFailure m) = False"

definition stepper_back :: "runner_state \<Rightarrow> runner_state \<times> back_result" where
  "stepper_back s =
     (if currentStepIndex s > 0 then
        (let s1 = s\<lparr>currentStepIndex := currentStepIndex s - 1\<rparr>
         in (s1, BackSuccess (currentStepIndex s1)))
      else (s, BackFailure ''Already at first step''))"

definition recordFailure ::
  "string \<Rightarrow> string \<Rightarrow> string \<Rightarrow> timestamp \<Rightarrow> runner_state \<Rightarrow> runner_state \<times> failure_record" where
  "recordFailure stepId reasonCategory note_text now s =
     (let failure = \<lparr> f_stepId = stepId, f_reasonCategory = reasonCategory,
                       f_note = note_text, f_timestamp = now \<rparr>
      in (s\<lparr>failureHistory := failureHistory s @ [failure]\<rparr>, failure))"

text \<open>
  \<open>switchToFallback(fallbackId, article)\<close> has two parameters. Its callers pass the texts
  of the completed steps as a third argument, which JavaScript ignores.
\<close>

definition switchToFallback ::
  "string \<Rightarrow> article option \<Rightarrow> timestamp \<Rightarrow> runner_state \<Rightarrow> runner_state \<times> (nat \<times> step option)" where
  "switchToFallback fallbackId article now s =
     (let s1 = s\<lparr>activePath := fallbackId\<rparr>;
          s2 = s1\<lparr>currentStepIndex := 0\<rparr>;
          s3 = s2\<lparr>attemptedPaths := attemptedPaths s2 @ [(fallbackId, now)]\<rparr>
      in (s3, (getTotalSteps article s3, getCurrentStep article s3)))"

definition isComplete :: "article option \<Rightarrow> runner_state \<Rightarrow> bool" where
  "isComplete article s =
     (let steps = getStepsForActivePath article s
      in currentStepIndex s \<ge> int (length steps))"

section \<open>Article retrieval (src/retrieval.js)\<close>

subsection \<open>Characters\<close>

text \<open>
  On code units below 256, the class \<open>\s\<close> of a JavaScript regular expression and the
  characters removed by \<open>trim()\<close> are tab, line feed, vertical tab, form feed, carriage
  return, space and the no-break space U+00A0.
\<close>

definition is_whitespace :: "char \<Rightarrow> bool" where
  "is_whitespace c = (of_char c \<in> {9, 10, 11, 12, 13, 32, 160 :: nat})"

text \<open>The class \<open>\w\<close> is \<open>[A-Za-z0-9_]\<close>.\<close>

definition is_word_char :: "char \<Rightarrow> bool" where
  "is_word_char c =
     (let n = (of_char c :: nat)
      in (48 \<le> n \<and> n \<le> 57) \<or> (65 \<le> n \<and> n \<le> 90) \<or> n = 95 \<or> (97 \<le> n \<and> n \<le> 122))"

text \<open>
  \<open>toLowerCase()\<close> on code units below 256: \<open>A\<close>..\<open>Z\<close> and the upper-case letters
  U+00C0..U+00DE (without the multiplication sign U+00D7) move up by 32.
\<close>

definition lower_char :: "char \<Rightarrow> char" where
  "lower_char c =
     (let n = (of_char c :: nat)
      in if (65 \<le> n \<and> n \<le> 90) \<or> (192 \<le> n \<and> n \<le> 222 \<and> n \<noteq> 215)
         then char_of (n + 32) else c)"

definition toLowerCase :: "string \<Rightarrow> string" where
  "toLowerCase s = map lower_char s"

definition trim :: "string \<Rightarrow> string" where
  "trim s = rev (dropWhile is_whitespace (rev (dropWhile is_whitespace s)))"

text \<open>\<open>replace(/[^\w\s]/g, ' ')\<close>\<close>

definition replace_non_word :: "string \<Rightarrow> string" where
  "replace_non_word s =
     map (\<lambda>c. if \<not> is_word_char c \<and> \<not> is_whitespace c then CHR '' '' else c) s"

text \<open>
  \<open>split(/\s+/)\<close>: the pieces between the maximal runs of whitespace, the empty pieces
  before a leading run and after a trailing run included. \<open>cur\<close> is the piece being read.
\<close>

function split_ws :: "string \<Rightarrow> string \<Rightarrow> string list" where
  "split_ws cur [] = [cur]"
| "split_ws cur (c # cs) =
     (if is_whitespace c then cur # split_ws [] (dropWhile is_whitespace cs)
      else split_ws (cur @ [c]) cs)"
  by pat_completeness auto
termination
  by (relation "measure (\<lambda>(cur, s). length s)")
     (auto simp: less_Suc_eq_le length_dropWhile_le)

subsection \<open>Normalization and scoring\<close>

definition normalizeQuery :: "string \<Rightarrow> string list" where
  "normalizeQuery query =
     (if query = [] \<or> length (trim query) = 0 then []
      else
        (let normalized = toLowerCase query;
             normalized = replace_non_word normalized;
             tokens = filter (\<lambda>token. length token > 0) (split_ws [] normalized)
         in tokens))"

text \<open>
  One \<open>forEach\<close> over the tokens of a field: \<open>score += w\<close> for each token that
  \<open>queryTokens.includes\<close>.
\<close>

definition add_token_matches :: "nat \<Rightarrow> string list \<Rightarrow> string list \<Rightarrow> nat \<Rightarrow> nat" where
  "add_token_matches w queryTokens tokens score =
     fold (\<lambda>token sc. if token \<in> set queryTokens then sc + w else sc) tokens score"

definition scoreArticle :: "article \<Rightarrow> string list \<Rightarrow> nat" where
  "scoreArticle a queryTokens =
     (let score = 0;
          score = (case art_tags a of
                     None \<Rightarrow> score
                   | Some ts \<Rightarrow>
                       fold (\<lambda>tag sc. add_token_matches 3 queryTokens (normalizeQuery tag) sc)
                         ts score);
          score = (case art_product a of
                     None \<Rightarrow> score
                   | Some p \<Rightarrow>
                       if p = [] then score
                       else add_token_matches 2 queryTokens (normalizeQuery p) score);
          score = (case art_title a of
                     None \<Rightarrow> score
                   | Some t \<Rightarrow>
                       if t = [] then score
                       else add_token_matches 1 queryTokens (normalizeQuery t) score)
      in score)"

subsection \<open>Ranking\<close>

record scored_match =
  m_article :: article
  m_score :: nat

text \<open>
  The object returned by \<open>retrieveArticles\<close>. An entry of \<open>matches\<close> repeats fields of
  its article beside the article and the score, so it is the pair of both. \<open>topScore\<close> is
  absent from the object returned for a query without tokens.
\<close>

record retrieval_result =
  matches :: "scored_match list"
  lowConfidence :: bool
  topScore :: "nat option"
  result_query :: string

text \<open>
  \<open>Array.prototype.sort\<close> with the comparator \<open>(a, b) => b.score - a.score\<close>: a stable
  sort (ECMAScript 2019) into descending score, here the stable insertion sort of the
  library on the negated score.
\<close>

definition sort_by_score_desc :: "scored_match list \<Rightarrow> scored_match list" where
  "sort_by_score_desc xs = sort_key (\<lambda>m. - int (m_score m)) xs"

text \<open>
  \<open>slice(0, topN)\<close> for an integer \<open>topN\<close>: a negative end counts from the end of the
  array.
\<close>

definition slice_from_start :: "int \<Rightarrow> 'a list \<Rightarrow> 'a list" where
  "slice_from_start topN xs =
     (let len = int (length xs);
          k = (if topN < 0 then max (len + topN) 0 else min topN len)
      in take (nat k) xs)"

text \<open>
  \<open>retrieveArticles(query, topN)\<close>. The imported constant \<open>enhancedKnowledgeBase\<close> is the
  argument \<open>kb\<close>; \<open>score_all\<close> is the \<open>map\<close> that builds \<open>scoredArticles\<close>.
\<close>

definition score_all :: "article list \<Rightarrow> string list \<Rightarrow> scored_match list" where
  "score_all kb queryTokens =
     map (\<lambda>a. \<lparr> m_article = a, m_score = scoreArticle a queryTokens \<rparr>) kb"

definition retrieveArticles :: "article list \<Rightarrow> string \<Rightarrow> int \<Rightarrow> retrieval_result" where
  "retrieveArticles kb query topN =
     (let queryTokens = normalizeQuery query in
      if length queryTokens = 0 then
        \<lparr> matches = [], lowConfidence = False, topScore = None, result_query = query \<rparr>
      else
        (let scoredArticles = score_all kb queryTokens;
             topMatches =
               filter (\<lambda>m. m_score m > 0)
                 (slice_from_start topN (sort_by_score_desc scoredArticles));
             top = (if length topMatches > 0 then m_score (hd topMatches) else 0);
             low = (top < 9)
         in \<lparr> matches = topMatches, lowConfidence = low, topScore = Some top,
              result_query = query \<rparr>))"

section \<open>Runs of the stepper\<close>

text \<open>The state after \<open>k\<close> calls of \<open>continue(article)\<close>.\<close>

definition continue_times :: "article option \<Rightarrow> nat \<Rightarrow> runner_state \<Rightarrow> runner_state" where
  "continue_times article k s = ((\<lambda>s'. fst (continue article s')) ^^ k) s"

text \<open>
  The states an instance can be in while every call that takes an article is given the
  same \<open>article\<close>: the constructor calls \<open>reset()\<close>, and each method call leads from a
  reachable state to the next.
\<close>

inductive reachable :: "article option \<Rightarrow> runner_state \<Rightarrow> bool" for article where
  r_new: "reachable article reset"
| r_reset: "reachable article s \<Longrightarrow> reachable article reset"
| r_startArticle: "reachable article s \<Longrightarrow> reachable article (fst (startArticle articleId article now))"
| r_continue: "reachable article s \<Longrightarrow> reachable article (fst (continue article s))"
| r_back: "reachable article s \<Longrightarrow> reachable article (fst (stepper_back s))"
| r_recordFailure:
    "reachable article s \<Longrightarrow> reachable article (fst (recordFailure stepId reason note_text now s))"
| r_switchToFallback:
    "reachable article s \<Longrightarrow> reachable article (fst (switchToFallback fallbackId article now s))"

text \<open>
  Calls made on one session: the navigation calls \<open>continue\<close>, \<open>back\<close> and
  \<open>switchToFallback\<close>, and \<open>recordFailure\<close>.
\<close>

datatype call =
  Continue "article option"
| Back
| SwitchToFallback string "article option" timestamp
| RecordFailure string string string timestamp

fun is_recordFailure :: "call \<Rightarrow> bool" where
  "is_recordFailure (RecordFailure stepId reason note_text now) = True"
| "is_recordFailure c = False"

fun do_call :: "call \<Rightarrow> runner_state \<Rightarrow> runner_state" where
  "do_call (Continue article) s = fst (continue article s)"
| "do_call Back s = fst (stepper_back s)"
| "do_call (SwitchToFallback fallbackId article now) s = fst (switchToFallback fallbackId article now s)"
| "do_call (RecordFailure stepId reason note_text now) s = fst (recordFailure stepId reason note_text now s)"

fun do_calls :: "call list \<Rightarrow> runner_state \<Rightarrow> runner_state" where
  "do_calls [] s = s"
| "do_calls (c # cs) s = do_calls cs (do_call c s)"

text \<open>The ids of the fallback paths an article defines.\<close>

definition fallback_ids :: "article option \<Rightarrow> string set" where
  "fallback_ids article =
     (case article of
        None \<Rightarrow> {}
      | Some a \<Rightarrow> (case art_fallbacks a of None \<Rightarrow> {} | Some fs \<Rightarrow> fb_id ` set fs))"

text \<open>
  The deduplication the specification describes for \<open>switchToFallback\<close>: the longest
  leading run of the fallback's steps whose text is among the texts completed so far.
\<close>

definition leading_duplicates :: "string list \<Rightarrow> step list \<Rightarrow> step list" where
  "leading_duplicates completedStepTextsSoFar steps =
     takeWhile (\<lambda>st. step_text st \<in> set completedStepTextsSoFar) steps"

text \<open>
  An article with two main steps and one fallback path, whose first step repeats the
  text of the first main step.
\<close>

definition two_step_article :: article where
  "two_step_article =
     \<lparr> art_id = 7, art_title = Some ''Printer Offline'', art_tags = Some [''printer''],
       art_product = Some ''Windows'',
       art_steps = Some [\<lparr>step_id = ''s1'', step_text = ''Restart the spooler''\<rparr>,
                         \<lparr>step_id = ''s2'', step_text = ''Reinstall the driver''\<rparr>],
       art_fallbacks = Some [\<lparr>fb_id = ''fb1'',
                                fb_steps = Some [\<lparr>step_id = ''f1'', step_text = ''Restart the spooler''\<rparr>,
                                                 \<lparr>step_id = ''f2'', step_text = ''Use another port''\<rparr>]\<rparr>] \<rparr>"

section \<open>Reference definitions for retrieval\<close>

text \<open>
  The tokens of an article's fields, each field normalized by \<open>normalizeQuery\<close>; a
  missing field has no tokens.
\<close>

definition tag_tokens :: "article \<Rightarrow> string list" where
  "tag_tokens a = (case art_tags a of None \<Rightarrow> [] | Some ts \<Rightarrow> concat (map normalizeQuery ts))"

definition product_tokens :: "article \<Rightarrow> string list" where
  "product_tokens a = (case art_product a of None \<Rightarrow> [] | Some p \<Rightarrow> normalizeQuery p)"

definition title_tokens :: "article \<Rightarrow> string list" where
  "title_tokens a = (case art_title a of None \<Rightarrow> [] | Some t \<Rightarrow> normalizeQuery t)"

text \<open>The number of occurrences in \<open>tokens\<close> of tokens that belong to the query's token set.\<close>

definition count_in :: "string list \<Rightarrow> string list \<Rightarrow> nat" where
  "count_in queryTokens tokens = length (filter (\<lambda>t. t \<in> set queryTokens) tokens)"

text \<open>The article of the specification's scoring example.\<close>

definition example_article :: article where
  "example_article =
     \<lparr> art_id = 1, art_title = Some ''Email Not Sending'',
       art_tags = Some [''email'', ''smtp''], art_product = Some ''Outlook'',
       art_steps = None, art_fallbacks = None \<rparr>"

text \<open>A knowledge base of three articles; two of them tie on the query \<open>"printer"\<close>.\<close>

definition example_kb :: "article list" where
  "example_kb =
     [two_step_article, example_article,
      \<lparr> art_id = 3, art_title = Some ''Printer Jam'', art_tags = Some [''printer''],
        art_product = Some ''HP'', art_steps = Some [], art_fallbacks = None \<rparr>]"

text \<open>
  \<open>ranked\<close> is the stable sort of \<open>xs\<close> into descending score: a rearrangement of \<open>xs\<close>,
  scores descending, and the entries of each single score in the order they have in \<open>xs\<close>.
\<close>

definition stable_descending :: "scored_match list \<Rightarrow> scored_match list \<Rightarrow> bool" where
  "stable_descending xs ranked =
     (mset ranked = mset xs
      \<and> sorted_wrt (\<lambda>a b. m_score a \<ge> m_score b) ranked
      \<and> (\<forall>k. filter (\<lambda>m. m_score m = k) ranked = filter (\<lambda>m. m_score m = k) xs))"

text \<open>
  The normalization as the specification words it: lower-case, replace every character
  that is not a letter, digit or whitespace by a space, split on whitespace, drop the
  empty tokens. Letters are the letters among the code units below 256.
\<close>

definition is_letter :: "char \<Rightarrow> bool" where
  "is_letter c =
     (let n = (of_char c :: nat)
      in (65 \<le> n \<and> n \<le> 90) \<or> (97 \<le> n \<and> n \<le> 122) \<or> n = 170 \<or> n = 181 \<or> n = 186
         \<or> (192 \<le> n \<and> n \<le> 214) \<or> (216 \<le> n \<and> n \<le> 246) \<or> (248 \<le> n \<and> n \<le> 255))"

definition is_digit :: "char \<Rightarrow> bool" where
  "is_digit c = (let n = (of_char c :: nat) in 48 \<le> n \<and> n \<le> 57)"

definition reference_normalize :: "string \<Rightarrow> string list" where
  "reference_normalize s =
     filter (\<lambda>t. t \<noteq> [])
       (split_ws []
          (map (\<lambda>c. if is_letter c \<or> is_digit c \<or> is_whitespace c then c else CHR '' '')
             (toLowerCase s)))"

section \<open>Properties of the stepper\<close>

lemma getTotalSteps_length:
  "getTotalSteps article s = length (getStepsForActivePath article s)"
  by (simp add: getTotalSteps_def getStepsForActivePath_def split: option.splits)

lemma steps_main:
  "activePath s = ''main'' \<Longrightarrow> art_steps a = Some ss \<Longrightarrow> getStepsForActivePath (Some a) s = ss"
  by (simp add: getStepsForActivePath_def)

lemma continue_advances:
  assumes "0 \<le> currentStepIndex s" "currentStepIndex s < int (length (getStepsForActivePath article s))"
  shows "currentStepIndex (fst (continue article s)) = currentStepIndex s + 1"
    and "activePath (fst (continue article s)) = activePath s"
    and "completed (snd (continue article s))
           = (currentStepIndex s + 1 \<ge> int (length (getStepsForActivePath article s)))"
  using assms
  by (auto simp: continue_def getCurrentStep_def getStepsForActivePath_def Let_def split: option.splits)

lemma continue_noop:
  assumes "currentStepIndex s \<ge> int (length (getStepsForActivePath article s))"
  shows "continue article s = (s, NoCurrentStep)"
  using assms
  by (auto simp: continue_def getCurrentStep_def Let_def split: option.splits)

lemma continue_times_Suc:
  "continue_times article (Suc k) s = fst (continue article (continue_times article k s))"
  by (simp add: continue_times_def)

lemma continue_times_0: "continue_times article 0 s = s"
  by (simp add: continue_times_def)

lemma getSteps_cong:
  "activePath s' = activePath s \<Longrightarrow> getStepsForActivePath article s' = getStepsForActivePath article s"
  by (cases article) (simp_all add: getStepsForActivePath_def)

lemma continue_times_index:
  assumes "currentStepIndex s = 0"
  shows "k \<le> length (getStepsForActivePath article s) \<Longrightarrow>
         currentStepIndex (continue_times article k s) = int k
         \<and> activePath (continue_times article k s) = activePath s"
proof (induction k)
  case 0
  then show ?case using assms by (simp add: continue_times_0)
next
  case (Suc k)
  let ?t = "continue_times article k s"
  from Suc have ih: "currentStepIndex ?t = int k" "activePath ?t = activePath s" by simp_all
  have st: "getStepsForActivePath article ?t = getStepsForActivePath article s"
    using ih(2) by (rule getSteps_cong)
  have lt: "currentStepIndex ?t < int (length (getStepsForActivePath article ?t))"
    using Suc.prems ih(1) st by simp
  have ge: "0 \<le> currentStepIndex ?t" using ih(1) by simp
  show ?case
    using continue_advances(1,2)[OF ge lt] ih by (simp add: continue_times_Suc)
qed

lemma continue_times_past:
  assumes "currentStepIndex s = 0"
  shows "k \<ge> length (getStepsForActivePath article s) \<Longrightarrow>
         continue_times article k s
           = continue_times article (length (getStepsForActivePath article s)) s"
proof (induction k)
  case 0
  then show ?case by simp
next
  case (Suc k)
  let ?n = "length (getStepsForActivePath article s)"
  show ?case
  proof (cases "Suc k = ?n")
    case True
    then show ?thesis by simp
  next
    case False
    with Suc.prems have "k \<ge> ?n" by simp
    with Suc.IH have eq: "continue_times article k s = continue_times article ?n s" by simp
    have idx: "currentStepIndex (continue_times article ?n s) = int ?n"
      and ap: "activePath (continue_times article ?n s) = activePath s"
      using continue_times_index[OF assms, of ?n article] by simp_all
    have "continue article (continue_times article ?n s) = (continue_times article ?n s, NoCurrentStep)"
      by (rule continue_noop) (simp add: idx getSteps_cong[OF ap])
    then show ?thesis by (simp add: continue_times_Suc eq)
  qed
qed

lemma startArticle_state:
  "fst (startArticle articleId article now) =
     \<lparr> selectedArticleId = Some articleId, activePath = ''main'', currentStepIndex = 0,
       completedStepIds = [], attemptedPaths = [(''main'', now)], failureHistory = [] \<rparr>"
  by (simp add: startArticle_def reset_def Let_def)

text \<open>
  C1: on an article with \<open>n \<ge> 1\<close> steps, after \<open>startArticle\<close>, the \<open>k\<close>-th call of
  \<open>continue\<close> (\<open>1 \<le> k \<le> n\<close>) returns \<open>completed = true\<close> exactly when \<open>k = n\<close>;
  \<open>isComplete\<close> is false after fewer than \<open>n\<close> calls and true after \<open>n\<close> or more; and after
  \<open>n\<close> or more calls a further \<open>continue\<close> returns \<open>{completed: true}\<close> and leaves the whole
  state, \<open>completedStepIds\<close> included, as it is.
\<close>

theorem continue_n_times_completes:
  assumes "art_steps a = Some ss" and "length ss = n" and "n \<ge> 1"
  shows "(1 \<le> k \<and> k \<le> n \<longrightarrow>
            completed (snd (continue (Some a)
               (continue_times (Some a) (k - 1) (fst (startArticle articleId (Some a) now)))))
            = (k = n))
       \<and> (k < n \<longrightarrow>
            \<not> isComplete (Some a) (continue_times (Some a) k (fst (startArticle articleId (Some a) now))))
       \<and> (n \<le> k \<longrightarrow>
            isComplete (Some a) (continue_times (Some a) k (fst (startArticle articleId (Some a) now)))
            \<and> continue (Some a) (continue_times (Some a) k (fst (startArticle articleId (Some a) now)))
                = (continue_times (Some a) k (fst (startArticle articleId (Some a) now)), NoCurrentStep)
            \<and> completed (snd (continue (Some a)
                 (continue_times (Some a) k (fst (startArticle articleId (Some a) now)))))
            \<and> completedStepIds (fst (continue (Some a)
                 (continue_times (Some a) k (fst (startArticle articleId (Some a) now)))))
                = completedStepIds (continue_times (Some a) k (fst (startArticle articleId (Some a) now))))"
proof -
  let ?s0 = "fst (startArticle articleId (Some a) now)"
  have i0: "currentStepIndex ?s0 = 0" and p0: "activePath ?s0 = ''main''"
    by (simp_all add: startArticle_state)
  have st0: "getStepsForActivePath (Some a) ?s0 = ss"
    using p0 assms(1) by (rule steps_main)
  have upto: "currentStepIndex (continue_times (Some a) j ?s0) = int j
              \<and> getStepsForActivePath (Some a) (continue_times (Some a) j ?s0) = ss" if "j \<le> n" for j
  proof -
    have "currentStepIndex (continue_times (Some a) j ?s0) = int j
          \<and> activePath (continue_times (Some a) j ?s0) = activePath ?s0"
      using continue_times_index[OF i0, of j "Some a"] that st0 assms(2) by simp
    then show ?thesis using st0 getSteps_cong[of "continue_times (Some a) j ?s0" ?s0 "Some a"] by simp
  qed
  have past: "continue_times (Some a) j ?s0 = continue_times (Some a) n ?s0" if "n \<le> j" for j
    using continue_times_past[OF i0, of "Some a" j] that st0 assms(2) by simp
  have c1: "completed (snd (continue (Some a) (continue_times (Some a) (k - 1) ?s0))) = (k = n)"
    if "1 \<le> k" "k \<le> n"
  proof -
    have u: "currentStepIndex (continue_times (Some a) (k - 1) ?s0) = int (k - 1)"
            "getStepsForActivePath (Some a) (continue_times (Some a) (k - 1) ?s0) = ss"
      using upto[of "k - 1"] that by simp_all
    have "completed (snd (continue (Some a) (continue_times (Some a) (k - 1) ?s0)))
          = (currentStepIndex (continue_times (Some a) (k - 1) ?s0) + 1
               \<ge> int (length (getStepsForActivePath (Some a) (continue_times (Some a) (k - 1) ?s0))))"
      by (rule continue_advances(3)) (use u that assms(2) in simp_all)
    also have "\<dots> = (k = n)" using u that assms(2) by auto
    finally show ?thesis .
  qed
  have c2: "\<not> isComplete (Some a) (continue_times (Some a) k ?s0)" if "k < n"
    using upto[of k] that assms(2) by (simp add: isComplete_def)
  have c3: "isComplete (Some a) (continue_times (Some a) k ?s0)" if "n \<le> k"
    using upto[of n] past[OF that] assms(2) by (simp add: isComplete_def)
  have c4: "continue (Some a) (continue_times (Some a) k ?s0)
              = (continue_times (Some a) k ?s0, NoCurrentStep)" if "n \<le> k"
    by (rule continue_noop) (use upto[of n] past[OF that] assms(2) in simp)
  show ?thesis using c1 c2 c3 c4 by simp
qed

theorem continue_n_times_completes_witness:
  "art_steps two_step_article = Some (the (art_steps two_step_article))
   \<and> length (the (art_steps two_step_article)) = 2 \<and> (2::nat) \<ge> 1
   \<and> \<not> completed (snd (continue (Some two_step_article)
          (continue_times (Some two_step_article) 0 (fst (startArticle 7 (Some two_step_article) ''t0'')))))
   \<and> completed (snd (continue (Some two_step_article)
          (continue_times (Some two_step_article) 1 (fst (startArticle 7 (Some two_step_article) ''t0'')))))
   \<and> \<not> isComplete (Some two_step_article)
          (continue_times (Some two_step_article) 1 (fst (startArticle 7 (Some two_step_article) ''t0'')))
   \<and> isComplete (Some two_step_article)
          (continue_times (Some two_step_article) 2 (fst (startArticle 7 (Some two_step_article) ''t0'')))
   \<and> continue (Some two_step_article)
          (continue_times (Some two_step_article) 3 (fst (startArticle 7 (Some two_step_article) ''t0'')))
       = (continue_times (Some two_step_article) 3 (fst (startArticle 7 (Some two_step_article) ''t0'')),
          NoCurrentStep)"
proof -
  have h1: "art_steps two_step_article = Some (the (art_steps two_step_article))"
    by (simp add: two_step_article_def)
  have h2: "length (the (art_steps two_step_article)) = 2"
    by (simp add: two_step_article_def)
  have h3: "(2::nat) \<ge> 1" by simp
  note t = continue_n_times_completes [OF h1 h2 h3, where articleId = 7 and now = "''t0''"]
  show ?thesis
    using h1 h2 t [of 1] t [of 2] t [of 3] by simp
qed

text \<open>
  C8: \<open>back()\<close> at index 0 returns \<open>{success: false}\<close> and leaves the state as it is, so the
  index is not decremented below 0; at an index above 0 it decrements the index by
  exactly one and returns success with the new index.
\<close>

theorem back_at_zero_fails_else_decrements:
  "(currentStepIndex s = 0 \<longrightarrow>
      \<not> success (snd (stepper_back s)) \<and> fst (stepper_back s) = s
      \<and> currentStepIndex (fst (stepper_back s)) = 0)
   \<and> (currentStepIndex s > 0 \<longrightarrow>
      success (snd (stepper_back s))
      \<and> currentStepIndex (fst (stepper_back s)) = currentStepIndex s - 1
      \<and> snd (stepper_back s) = BackSuccess (currentStepIndex s - 1)
      \<and> fst (stepper_back s) = s\<lparr>currentStepIndex := currentStepIndex s - 1\<rparr>)"
  by (simp add: stepper_back_def Let_def)

theorem back_at_zero_fails_else_decrements_witness:
  "currentStepIndex (fst (startArticle 7 (Some two_step_article) ''t0'')) = 0
   \<and> \<not> success (snd (stepper_back (fst (startArticle 7 (Some two_step_article) ''t0''))))
   \<and> currentStepIndex (fst (stepper_back (fst (startArticle 7 (Some two_step_article) ''t0'')))) = 0
   \<and> currentStepIndex
        (fst (continue (Some two_step_article) (fst (startArticle 7 (Some two_step_article) ''t0'')))) = 1
   \<and> snd (stepper_back
        (fst (continue (Some two_step_article) (fst (startArticle 7 (Some two_step_article) ''t0'')))))
       = BackSuccess 0
   \<and> currentStepIndex (fst (stepper_back
        (fst (continue (Some two_step_article) (fst (startArticle 7 (Some two_step_article) ''t0''))))))
       = 0"
proof -
  let ?s0 = "fst (startArticle 7 (Some two_step_article) ''t0'')"
  let ?s1 = "fst (continue (Some two_step_article) ?s0)"
  have i0: "currentStepIndex ?s0 = 0" by (simp add: startArticle_state)
  have i1: "currentStepIndex ?s1 = 1"
    by (simp add: startArticle_state continue_def getCurrentStep_def getStepsForActivePath_def
          two_step_article_def Let_def)
  show ?thesis
    using i0 i1 back_at_zero_fails_else_decrements [of ?s0]
          back_at_zero_fails_else_decrements [of ?s1]
    by simp
qed

lemma continue_index_bounds:
  assumes "0 \<le> currentStepIndex s"
      and "currentStepIndex s \<le> int (length (getStepsForActivePath article s))"
  shows "0 \<le> currentStepIndex (fst (continue article s))
         \<and> currentStepIndex (fst (continue article s))
             \<le> int (length (getStepsForActivePath article (fst (continue article s))))"
proof (cases "currentStepIndex s < int (length (getStepsForActivePath article s))")
  case True
  have "getStepsForActivePath article (fst (continue article s)) = getStepsForActivePath article s"
    using continue_advances(2)[OF assms(1) True] by (rule getSteps_cong)
  then show ?thesis using continue_advances(1)[OF assms(1) True] True assms(1) by simp
next
  case False
  then have "continue article s = (s, NoCurrentStep)" by (intro continue_noop) simp
  then show ?thesis using assms by simp
qed

lemma back_index_bounds:
  assumes "0 \<le> currentStepIndex s"
      and "currentStepIndex s \<le> int (length (getStepsForActivePath article s))"
  shows "0 \<le> currentStepIndex (fst (stepper_back s))
         \<and> currentStepIndex (fst (stepper_back s))
             \<le> int (length (getStepsForActivePath article (fst (stepper_back s))))"
proof -
  have "activePath (fst (stepper_back s)) = activePath s"
    by (simp add: stepper_back_def Let_def)
  then have "getStepsForActivePath article (fst (stepper_back s)) = getStepsForActivePath article s"
    by (rule getSteps_cong)
  then show ?thesis using assms by (simp add: stepper_back_def Let_def)
qed

lemma recordFailure_frame:
  "fst (recordFailure stepId reason note_text now s)
     = s\<lparr>failureHistory := failureHistory s @ [snd (recordFailure stepId reason note_text now s)]\<rparr>"
  by (simp add: recordFailure_def Let_def)

lemma switchToFallback_state:
  "fst (switchToFallback fallbackId article now s)
     = s\<lparr>activePath := fallbackId, currentStepIndex := 0,
          attemptedPaths := attemptedPaths s @ [(fallbackId, now)]\<rparr>"
  by (simp add: switchToFallback_def Let_def)

text \<open>
  C7: in every state reachable by \<open>reset\<close>, \<open>startArticle\<close>, \<open>continue\<close>, \<open>back\<close>,
  \<open>recordFailure\<close> and \<open>switchToFallback\<close> on one article, \<open>currentStepIndex\<close> lies between
  0 and the number of steps of the active path, and it equals that number exactly when
  \<open>isComplete\<close> holds.
\<close>

theorem index_within_active_path:
  assumes "reachable article s"
  shows "0 \<le> currentStepIndex s
       \<and> currentStepIndex s \<le> int (length (getStepsForActivePath article s))
       \<and> (currentStepIndex s = int (length (getStepsForActivePath article s)))
           = isComplete article s"
proof -
  have inv: "0 \<le> currentStepIndex s
       \<and> currentStepIndex s \<le> int (length (getStepsForActivePath article s))"
    using assms
  proof (induction rule: reachable.induct)
    case r_new
    show ?case by (simp add: reset_def)
  next
    case (r_reset s)
    show ?case by (simp add: reset_def)
  next
    case (r_startArticle s articleId now)
    show ?case by (simp add: startArticle_state)
  next
    case (r_continue s)
    then show ?case using continue_index_bounds[of s article] by simp
  next
    case (r_back s)
    then show ?case using back_index_bounds[of s article] by simp
  next
    case (r_recordFailure s stepId reason note_text now)
    have "getStepsForActivePath article (fst (recordFailure stepId reason note_text now s))
            = getStepsForActivePath article s"
      by (rule getSteps_cong) (simp add: recordFailure_frame)
    with r_recordFailure.IH show ?case by (simp add: recordFailure_frame)
  next
    case (r_switchToFallback s fallbackId now)
    show ?case by (simp add: switchToFallback_state)
  qed
  then show ?thesis by (auto simp: isComplete_def)
qed

theorem index_within_active_path_witness:
  "reachable (Some two_step_article)
     (fst (continue (Some two_step_article) (fst (startArticle 7 (Some two_step_article) ''t0''))))
   \<and> currentStepIndex
       (fst (continue (Some two_step_article) (fst (startArticle 7 (Some two_step_article) ''t0'')))) = 1
   \<and> length (getStepsForActivePath (Some two_step_article)
       (fst (continue (Some two_step_article) (fst (startArticle 7 (Some two_step_article) ''t0''))))) = 2
   \<and> \<not> isComplete (Some two_step_article)
       (fst (continue (Some two_step_article) (fst (startArticle 7 (Some two_step_article) ''t0''))))"
proof -
  let ?a = "Some two_step_article"
  let ?s = "fst (continue ?a (fst (startArticle 7 ?a ''t0'')))"
  have r: "reachable ?a ?s"
    by (rule reachable.r_continue [OF reachable.r_startArticle [OF reachable.r_new]])
  have i: "currentStepIndex ?s = 1"
    by (simp add: startArticle_state continue_def getCurrentStep_def getStepsForActivePath_def
          two_step_article_def Let_def)
  have l: "length (getStepsForActivePath ?a ?s) = 2"
    by (simp add: startArticle_state continue_def getCurrentStep_def getStepsForActivePath_def
          two_step_article_def Let_def)
  show ?thesis using r i l index_within_active_path [OF r] by simp
qed

lemma do_call_failureHistory:
  "length (failureHistory (do_call c s))
     = length (failureHistory s) + (if is_recordFailure c then 1 else 0)"
  by (cases c)
     (auto simp: continue_def stepper_back_def switchToFallback_state recordFailure_frame Let_def
           split: option.splits)

lemma do_calls_failureHistory:
  "length (failureHistory (do_calls cs s))
     = length (failureHistory s) + length (filter is_recordFailure cs)"
  by (induction cs arbitrary: s) (simp_all add: do_call_failureHistory)

text \<open>
  C9: \<open>recordFailure\<close> returns the record it built from its arguments and appends exactly
  that record to \<open>failureHistory\<close>, every other field of the state staying as it is; over
  any sequence of \<open>continue\<close>, \<open>back\<close>, \<open>switchToFallback\<close> and \<open>recordFailure\<close> calls the
  history grows by the number of \<open>recordFailure\<close> calls, so that after \<open>k\<close> of them on a
  session begun by \<open>startArticle\<close> (or by \<open>reset\<close>) its length is \<open>k\<close>.
\<close>

theorem recordFailure_append_only:
  "fst (recordFailure stepId reason note_text now s)
     = s\<lparr>failureHistory := failureHistory s @ [snd (recordFailure stepId reason note_text now s)]\<rparr>
   \<and> snd (recordFailure stepId reason note_text now s)
     = \<lparr> f_stepId = stepId, f_reasonCategory = reason, f_note = note_text, f_timestamp = now \<rparr>
   \<and> selectedArticleId (fst (recordFailure stepId reason note_text now s)) = selectedArticleId s
   \<and> activePath (fst (recordFailure stepId reason note_text now s)) = activePath s
   \<and> currentStepIndex (fst (recordFailure stepId reason note_text now s)) = currentStepIndex s
   \<and> completedStepIds (fst (recordFailure stepId reason note_text now s)) = completedStepIds s
   \<and> attemptedPaths (fst (recordFailure stepId reason note_text now s)) = attemptedPaths s
   \<and> length (failureHistory (fst (recordFailure stepId reason note_text now s)))
       = length (failureHistory s) + 1
   \<and> length (failureHistory (do_calls cs s))
       = length (failureHistory s) + length (filter is_recordFailure cs)
   \<and> length (failureHistory (do_calls cs (fst (startArticle articleId article now'))))
       = length (filter is_recordFailure cs)
   \<and> length (failureHistory (do_calls cs reset)) = length (filter is_recordFailure cs)"
  by (simp add: do_calls_failureHistory recordFailure_frame startArticle_state)
     (simp add: recordFailure_def reset_def Let_def)

lemma find_fallback_None:
  "fallbackId \<notin> fallback_ids (Some a) \<Longrightarrow> find_fallback a fallbackId = None"
  by (auto simp: fallback_ids_def find_fallback_def find_None_iff split: option.splits)

lemma unknown_path_no_steps:
  assumes "activePath s \<notin> fallback_ids article" and "activePath s \<noteq> ''main''"
  shows "getStepsForActivePath article s = []"
proof (cases article)
  case None
  then show ?thesis by (simp add: getStepsForActivePath_def)
next
  case (Some a)
  with assms show ?thesis
    by (simp add: getStepsForActivePath_def find_fallback_None)
qed

lemma getCurrentStep_past:
  "currentStepIndex s \<ge> int (length (getStepsForActivePath article s)) \<Longrightarrow>
   getCurrentStep article s = None"
  by (cases article) (simp_all add: getCurrentStep_def Let_def)

theorem switchToFallback_unknown_id_counterexample:
  "''main'' \<notin> fallback_ids (Some two_step_article)
   \<and> getTotalSteps (Some two_step_article)
        (fst (switchToFallback ''main'' (Some two_step_article) ''t1''
               (fst (startArticle 7 (Some two_step_article) ''t0'')))) = 2
   \<and> getCurrentStep (Some two_step_article)
        (fst (switchToFallback ''main'' (Some two_step_article) ''t1''
               (fst (startArticle 7 (Some two_step_article) ''t0''))))
       = Some \<lparr>step_id = ''s1'', step_text = ''Restart the spooler''\<rparr>
   \<and> \<not> isComplete (Some two_step_article)
        (fst (switchToFallback ''main'' (Some two_step_article) ''t1''
               (fst (startArticle 7 (Some two_step_article) ''t0''))))"
  by (simp add: fallback_ids_def two_step_article_def switchToFallback_state startArticle_state
        getTotalSteps_def getCurrentStep_def getStepsForActivePath_def isComplete_def Let_def)

text \<open>
  C10: \<open>switchToFallback\<close> with a \<open>fallbackId\<close> that is not \<open>"main"\<close> and is the id of no
  fallback path of the article returns \<open>{totalSteps: 0, currentStep: null}\<close>, and
  afterwards \<open>getTotalSteps\<close> is 0, \<open>getCurrentStep\<close> is \<open>null\<close> and \<open>isComplete\<close> is true.
  The id \<open>"main"\<close>, which is the id of no fallback path either, selects the main steps:
  the counterexample.
\<close>

theorem switchToFallback_unknown_id:
  assumes "fallbackId \<notin> fallback_ids article" and "fallbackId \<noteq> ''main''"
  shows "snd (switchToFallback fallbackId article now s) = (0, None)
       \<and> activePath (fst (switchToFallback fallbackId article now s)) = fallbackId
       \<and> getTotalSteps article (fst (switchToFallback fallbackId article now s)) = 0
       \<and> getCurrentStep article (fst (switchToFallback fallbackId article now s)) = None
       \<and> isComplete article (fst (switchToFallback fallbackId article now s))"
proof -
  let ?s' = "fst (switchToFallback fallbackId article now s)"
  have ap: "activePath ?s' = fallbackId" and ix: "currentStepIndex ?s' = 0"
    by (simp_all add: switchToFallback_state)
  have st: "getStepsForActivePath article ?s' = []"
    using assms ap by (intro unknown_path_no_steps) simp_all
  have tot: "getTotalSteps article ?s' = 0"
    by (simp add: getTotalSteps_length st)
  have cur: "getCurrentStep article ?s' = None"
    by (rule getCurrentStep_past) (simp add: st ix)
  have com: "isComplete article ?s'"
    using st ix by (simp add: isComplete_def)
  have "snd (switchToFallback fallbackId article now s)
          = (getTotalSteps article ?s', getCurrentStep article ?s')"
    by (simp add: switchToFallback_def Let_def)
  then show ?thesis using ap tot cur com by simp
qed

theorem switchToFallback_unknown_id_witness:
  "''fb9'' \<notin> fallback_ids (Some two_step_article) \<and> ''fb9'' \<noteq> ''main''
   \<and> snd (switchToFallback ''fb9'' (Some two_step_article) ''t1''
            (fst (startArticle 7 (Some two_step_article) ''t0''))) = (0, None)
   \<and> isComplete (Some two_step_article)
        (fst (switchToFallback ''fb9'' (Some two_step_article) ''t1''
               (fst (startArticle 7 (Some two_step_article) ''t0''))))"
proof -
  have h1: "''fb9'' \<notin> fallback_ids (Some two_step_article)"
    by (simp add: fallback_ids_def two_step_article_def)
  have h2: "''fb9'' \<noteq> ''main''" by simp
  show ?thesis
    using h1 h2 switchToFallback_unknown_id [OF h1 h2, of "''t1''"
            "fst (startArticle 7 (Some two_step_article) ''t0'')"]
    by simp
qed

text \<open>
  C2: \<open>switchToFallback\<close> is to skip the longest leading run of fallback steps whose text
  was completed before. The callers pass the completed texts as a third argument and read
  \<open>skippedSteps\<close> from the result; \<open>switchToFallback(fallbackId, article)\<close> of
  src/stepper.js ignores that argument. After \<open>startArticle\<close> and one \<open>continue\<close> on
  \<open>two_step_article\<close> the step \<open>s1\<close> with the text \<open>"Restart the spooler"\<close> is completed;
  the first step \<open>f1\<close> of the fallback \<open>fb1\<close> has the same text, so the leading run of
  duplicates has length 1. The code leaves the index at 0, returns \<open>f1\<close> as the current
  step and does not mark it completed.
\<close>

theorem switchToFallback_ignores_completed_texts:
  "find_fallback two_step_article ''fb1''
     = Some \<lparr>fb_id = ''fb1'',
             fb_steps = Some [\<lparr>step_id = ''f1'', step_text = ''Restart the spooler''\<rparr>,
                              \<lparr>step_id = ''f2'', step_text = ''Use another port''\<rparr>]\<rparr>
   \<and> completedStepIds (fst (continue (Some two_step_article)
        (fst (startArticle 7 (Some two_step_article) ''t0'')))) = [''s1'']
   \<and> length (leading_duplicates [''Restart the spooler'']
        [\<lparr>step_id = ''f1'', step_text = ''Restart the spooler''\<rparr>,
         \<lparr>step_id = ''f2'', step_text = ''Use another port''\<rparr>]) = 1
   \<and> currentStepIndex (fst (switchToFallback ''fb1'' (Some two_step_article) ''t1''
        (fst (continue (Some two_step_article)
           (fst (startArticle 7 (Some two_step_article) ''t0'')))))) = 0
   \<and> completedStepIds (fst (switchToFallback ''fb1'' (Some two_step_article) ''t1''
        (fst (continue (Some two_step_article)
           (fst (startArticle 7 (Some two_step_article) ''t0'')))))) = [''s1'']
   \<and> snd (switchToFallback ''fb1'' (Some two_step_article) ''t1''
        (fst (continue (Some two_step_article)
           (fst (startArticle 7 (Some two_step_article) ''t0'')))))
       = (2, Some \<lparr>step_id = ''f1'', step_text = ''Restart the spooler''\<rparr>)"
  by (simp add: two_step_article_def find_fallback_def leading_duplicates_def
        switchToFallback_def startArticle_state continue_def set_add_def
        getTotalSteps_def getCurrentStep_def getStepsForActivePath_def Let_def)

section \<open>Properties of retrieval\<close>

lemma add_token_matches_count:
  "add_token_matches w queryTokens tokens score = score + w * count_in queryTokens tokens"
  unfolding add_token_matches_def count_in_def
  by (induction tokens arbitrary: score) simp_all

lemma count_in_append:
  "count_in queryTokens (xs @ ys) = count_in queryTokens xs + count_in queryTokens ys"
  by (simp add: count_in_def)

lemma fold_tags_count:
  "fold (\<lambda>tag sc. add_token_matches w queryTokens (normalizeQuery tag) sc) ts score
     = score + w * count_in queryTokens (concat (map normalizeQuery ts))"
  by (induction ts arbitrary: score)
     (simp_all add: add_token_matches_count count_in_append count_in_def algebra_simps)

lemma normalizeQuery_empty: "normalizeQuery [] = []"
  by (simp add: normalizeQuery_def)

lemma scoreArticle_sum:
  "scoreArticle a queryTokens
     = 3 * count_in queryTokens (tag_tokens a)
       + 2 * count_in queryTokens (product_tokens a)
       + 1 * count_in queryTokens (title_tokens a)"
  by (simp add: scoreArticle_def tag_tokens_def product_tokens_def title_tokens_def
        add_token_matches_count fold_tags_count normalizeQuery_empty count_in_def Let_def
      split: option.splits)

text \<open>
  C3: the score of an article is 3 for every tag token, 2 for every product-name token
  and 1 for every title token that belongs to the query's token set, each occurrence
  counted; the article with tags \<open>["email","smtp"]\<close>, product \<open>"Outlook"\<close> and title
  \<open>"Email Not Sending"\<close> scores 9 for the query \<open>"outlook email smtp"\<close>.
\<close>

theorem score_is_weighted_token_count:
  "scoreArticle a (normalizeQuery query)
     = 3 * count_in (normalizeQuery query) (tag_tokens a)
       + 2 * count_in (normalizeQuery query) (product_tokens a)
       + 1 * count_in (normalizeQuery query) (title_tokens a)
   \<and> tag_tokens example_article = [''email'', ''smtp'']
   \<and> product_tokens example_article = [''outlook'']
   \<and> title_tokens example_article = [''email'', ''not'', ''sending'']
   \<and> normalizeQuery ''outlook email smtp'' = [''outlook'', ''email'', ''smtp'']
   \<and> scoreArticle example_article (normalizeQuery ''outlook email smtp'') = 9"
proof -
  have 1: "tag_tokens example_article = [''email'', ''smtp'']" by code_simp
  have 2: "product_tokens example_article = [''outlook'']" by code_simp
  have 3: "title_tokens example_article = [''email'', ''not'', ''sending'']" by code_simp
  have 4: "normalizeQuery ''outlook email smtp'' = [''outlook'', ''email'', ''smtp'']" by code_simp
  have 5: "scoreArticle example_article (normalizeQuery ''outlook email smtp'') = 9" by code_simp
  show ?thesis using 1 2 3 4 5 scoreArticle_sum by blast
qed

text \<open>
  C6: \<open>normalizeQuery\<close> keeps the underscore, which is neither a letter, a digit nor
  whitespace: on \<open>"error_code 42"\<close> it returns one token \<open>error_code\<close> where the
  normalization of the specification returns \<open>error\<close> and \<open>code\<close>.
\<close>

theorem normalize_keeps_underscore:
  "normalizeQuery ''error_code 42'' = [''error_code'', ''42'']
   \<and> reference_normalize ''error_code 42'' = [''error'', ''code'', ''42'']"
  by code_simp

lemma lower_char_whitespace: "is_whitespace c \<Longrightarrow> lower_char c = c"
  by (auto simp: is_whitespace_def lower_char_def Let_def)

lemma dropWhile_all: "\<forall>x \<in> set xs. P x \<Longrightarrow> dropWhile P xs = []"
  by simp

lemma split_ws_all_whitespace:
  assumes "\<forall>c \<in> set s. is_whitespace c"
  shows "filter (\<lambda>t. t \<noteq> []) (split_ws [] s) = []"
proof (cases s)
  case Nil
  then show ?thesis by simp
next
  case (Cons c cs)
  with assms have c: "is_whitespace c" and "\<forall>x \<in> set cs. is_whitespace x"
    by simp_all
  then have "split_ws [] (c # cs) = [[], []]" by (simp add: dropWhile_all)
  with Cons show ?thesis by simp
qed

lemma trim_empty_iff: "trim s = [] \<longleftrightarrow> (\<forall>c \<in> set s. is_whitespace c)"
proof
  assume "trim s = []"
  then have a: "\<forall>c \<in> set (dropWhile is_whitespace s). is_whitespace c"
    by (simp add: trim_def)
  have "dropWhile is_whitespace s = []"
  proof (rule ccontr)
    assume n: "dropWhile is_whitespace s \<noteq> []"
    then have "\<not> is_whitespace (hd (dropWhile is_whitespace s))"
      by (rule hd_dropWhile)
    with a n show False by (metis hd_in_set)
  qed
  then show "\<forall>c \<in> set s. is_whitespace c" by simp
next
  assume "\<forall>c \<in> set s. is_whitespace c"
  then show "trim s = []" by (simp add: trim_def dropWhile_all)
qed

lemma reference_normalize_whitespace:
  assumes "\<forall>c \<in> set s. is_whitespace c"
  shows "reference_normalize s = []"
proof -
  have "toLowerCase s = s"
    using assms by (simp add: toLowerCase_def lower_char_whitespace map_idI)
  moreover have "map (\<lambda>c. if is_letter c \<or> is_digit c \<or> is_whitespace c then c else CHR '' '') s = s"
    using assms by (simp add: map_idI)
  ultimately show ?thesis
    using split_ws_all_whitespace [OF assms] by (simp add: reference_normalize_def)
qed

lemma replace_char_agrees:
  assumes "(of_char c :: nat) < 128" and "(of_char c :: nat) \<noteq> 95"
  shows "(\<not> is_word_char (lower_char c) \<and> \<not> is_whitespace (lower_char c))
         = (\<not> (is_letter (lower_char c) \<or> is_digit (lower_char c) \<or> is_whitespace (lower_char c)))"
proof (cases "65 \<le> (of_char c :: nat) \<and> (of_char c :: nat) \<le> 90")
  case True
  then have "(of_char (lower_char c) :: nat) = of_char c + 32"
    by (simp add: lower_char_def Let_def)
  with True show ?thesis
    by (simp add: is_word_char_def is_letter_def is_digit_def is_whitespace_def Let_def)
next
  case False
  with assms have "lower_char c = c" by (auto simp: lower_char_def Let_def)
  with assms False show ?thesis
    by (auto simp: is_word_char_def is_letter_def is_digit_def is_whitespace_def Let_def)
qed

text \<open>
  On strings of code units below 128 without an underscore, \<open>normalizeQuery\<close> is the
  normalization of the specification; the early return for a blank query agrees with it
  too.
\<close>

lemma normalizeQuery_agrees_with_reference:
  assumes "\<forall>c \<in> set s. (of_char c :: nat) < 128 \<and> (of_char c :: nat) \<noteq> 95"
  shows "normalizeQuery s = reference_normalize s"
proof (cases "s = [] \<or> length (trim s) = 0")
  case True
  then have "\<forall>c \<in> set s. is_whitespace c" using trim_empty_iff [of s] by auto
  then have "reference_normalize s = []" by (rule reference_normalize_whitespace)
  with True show ?thesis by (simp add: normalizeQuery_def)
next
  case False
  have "replace_non_word (toLowerCase s)
          = map (\<lambda>c. if is_letter c \<or> is_digit c \<or> is_whitespace c then c else CHR '' '')
              (toLowerCase s)"
    unfolding replace_non_word_def toLowerCase_def map_map
  proof (rule map_cong [OF refl])
    fix c assume "c \<in> set s"
    with assms have "(of_char c :: nat) < 128" "(of_char c :: nat) \<noteq> 95" by simp_all
    from replace_char_agrees [OF this]
    show "((\<lambda>c. if \<not> is_word_char c \<and> \<not> is_whitespace c then CHR '' '' else c) \<circ> lower_char) c
          = ((\<lambda>c. if is_letter c \<or> is_digit c \<or> is_whitespace c then c else CHR '' '') \<circ> lower_char) c"
      by auto
  qed
  with False show ?thesis
    by (simp add: normalizeQuery_def reference_normalize_def Let_def)
qed

lemma scoreArticle_no_tokens: "scoreArticle a [] = 0"
  by (simp add: scoreArticle_sum count_in_def)

lemma sort_by_score_desc_stable: "stable_descending xs (sort_by_score_desc xs)"
proof -
  let ?f = "\<lambda>m. - int (m_score m)"
  have "sorted (map ?f (sort_key ?f xs))" by (rule sorted_sort_key)
  then have s: "sorted_wrt (\<lambda>a b. m_score a \<ge> m_score b) (sort_key ?f xs)"
    by (simp add: sorted_map)
  have st: "filter (\<lambda>m. m_score m = k) (sort_key ?f xs) = filter (\<lambda>m. m_score m = k) xs" for k
    using sort_key_stable [of ?f "- int k" xs] by simp
  show ?thesis
    unfolding stable_descending_def sort_by_score_desc_def using s st by simp
qed

lemma stable_descending_unique:
  assumes "stable_descending xs ranked"
  shows "ranked = sort_by_score_desc xs"
proof -
  let ?f = "\<lambda>m. - int (m_score m)"
  from assms have m: "mset ranked = mset xs"
    and s: "sorted_wrt (\<lambda>a b. m_score a \<ge> m_score b) ranked"
    and st: "\<And>k. filter (\<lambda>m. m_score m = k) ranked = filter (\<lambda>m. m_score m = k) xs"
    by (simp_all add: stable_descending_def)
  have "sort_key ?f xs = ranked"
  proof (rule properties_for_sort_key)
    show "mset ranked = mset xs" by (rule m)
    show "filter (\<lambda>x. ?f k = ?f x) ranked = filter (\<lambda>x. ?f k = ?f x) xs" for k
      using st [of "m_score k"] by (simp add: eq_commute)
    show "sorted (map ?f ranked)" using s by (simp add: sorted_map)
  qed
  then show ?thesis by (simp add: sort_by_score_desc_def)
qed

lemma slice_from_start_take:
  "0 \<le> topN \<Longrightarrow> slice_from_start topN xs = take (nat topN) xs"
  by (auto simp: slice_from_start_def Let_def min_def)

lemma retrieveArticles_matches:
  "matches (retrieveArticles kb query topN)
     = filter (\<lambda>m. m_score m > 0)
         (slice_from_start topN (sort_by_score_desc (score_all kb (normalizeQuery query))))"
proof (cases "normalizeQuery query = []")
  case True
  have "\<forall>m \<in> set (score_all kb []). m_score m = 0"
    by (simp add: score_all_def scoreArticle_no_tokens)
  moreover have "set (sort_by_score_desc (score_all kb [])) = set (score_all kb [])"
    by (simp add: sort_by_score_desc_def)
  moreover have "set (slice_from_start topN ys) \<subseteq> set ys" for ys :: "scored_match list"
    by (simp add: slice_from_start_def Let_def set_take_subset)
  ultimately have "\<forall>m \<in> set (slice_from_start topN (sort_by_score_desc (score_all kb []))). m_score m = 0"
    by blast
  then have "filter (\<lambda>m. m_score m > 0)
         (slice_from_start topN (sort_by_score_desc (score_all kb []))) = []"
    by (simp add: filter_empty_conv)
  with True show ?thesis by (simp add: retrieveArticles_def)
next
  case False
  then show ?thesis by (simp add: retrieveArticles_def Let_def)
qed

theorem matches_ranked_truncated_positive_counterexample:
  "map m_score (matches (retrieveArticles example_kb ''printer email'' (- 1))) = [4, 4]
   \<and> map (art_id \<circ> m_article) (matches (retrieveArticles example_kb ''printer email'' (- 1)))
       = [7, 1]
   \<and> \<not> int (length (matches (retrieveArticles example_kb ''printer email'' (- 1)))) \<le> - 1
   \<and> take (nat (- 1))
         (sort_by_score_desc (score_all example_kb (normalizeQuery ''printer email''))) = []"
proof -
  have 1: "map m_score (matches (retrieveArticles example_kb ''printer email'' (- 1))) = [4, 4]"
    by code_simp
  have 2: "map (art_id \<circ> m_article) (matches (retrieveArticles example_kb ''printer email'' (- 1)))
       = [7, 1]"
    by code_simp
  have 3: "length (matches (retrieveArticles example_kb ''printer email'' (- 1))) = 2"
    using arg_cong [OF 1, where f = length] by simp
  show ?thesis using 1 2 3 by simp
qed

text \<open>
  C5: for every query and every integer \<open>topN \<ge> 0\<close>, the returned matches are the first
  \<open>topN\<close> entries of the stable sort of the scored articles into descending score (which
  exists and is unique), without the entries whose score is not positive. For a negative
  \<open>topN\<close>, \<open>slice(0, topN)\<close> counts from the end of the array: with \<open>topN = -1\<close> and three
  articles of score 4 the counterexample returns two matches, not a list truncated to
  \<open>topN\<close>.
\<close>

theorem matches_ranked_truncated_positive:
  assumes "0 \<le> topN"
  shows "(\<exists>!ranked. stable_descending (score_all kb (normalizeQuery query)) ranked)
       \<and> (\<exists>ranked. stable_descending (score_all kb (normalizeQuery query)) ranked
            \<and> matches (retrieveArticles kb query topN)
                = filter (\<lambda>m. m_score m > 0) (take (nat topN) ranked))"
proof
  show "\<exists>!ranked. stable_descending (score_all kb (normalizeQuery query)) ranked"
    using sort_by_score_desc_stable stable_descending_unique by blast
  show "\<exists>ranked. stable_descending (score_all kb (normalizeQuery query)) ranked
            \<and> matches (retrieveArticles kb query topN)
                = filter (\<lambda>m. m_score m > 0) (take (nat topN) ranked)"
  proof (intro exI conjI)
    show "stable_descending (score_all kb (normalizeQuery query))
            (sort_by_score_desc (score_all kb (normalizeQuery query)))"
      by (rule sort_by_score_desc_stable)
    show "matches (retrieveArticles kb query topN)
            = filter (\<lambda>m. m_score m > 0)
                (take (nat topN) (sort_by_score_desc (score_all kb (normalizeQuery query))))"
      by (simp add: retrieveArticles_matches slice_from_start_take [OF assms])
  qed
qed

theorem matches_ranked_truncated_positive_witness:
  "(0::int) \<le> 2
   \<and> (\<exists>ranked. stable_descending (score_all example_kb (normalizeQuery ''outlook email smtp printer'')) ranked
         \<and> matches (retrieveArticles example_kb ''outlook email smtp printer'' 2)
             = filter (\<lambda>m. m_score m > 0) (take (nat 2) ranked))
   \<and> map (\<lambda>m. (art_id (m_article m), m_score m))
        (matches (retrieveArticles example_kb ''outlook email smtp printer'' 2)) = [(1, 9), (7, 4)]"
proof -
  have h: "(0::int) \<le> 2" by simp
  have e: "map (\<lambda>m. (art_id (m_article m), m_score m))
        (matches (retrieveArticles example_kb ''outlook email smtp printer'' 2)) = [(1, 9), (7, 4)]"
    by code_simp
  show ?thesis
    using h e matches_ranked_truncated_positive [OF h, of example_kb "''outlook email smtp printer''"]
    by blast
qed

lemma sorted_wrt_take_prefix: "sorted_wrt P xs \<Longrightarrow> sorted_wrt P (take n xs)"
  by (metis append_take_drop_id sorted_wrt_append)

lemma slice_from_start_sorted:
  "sorted_wrt P xs \<Longrightarrow> sorted_wrt P (slice_from_start topN xs)"
  by (simp add: slice_from_start_def Let_def sorted_wrt_take_prefix)

lemma matches_sorted:
  "sorted_wrt (\<lambda>a b. m_score a \<ge> m_score b) (matches (retrieveArticles kb query topN))"
proof -
  have "sorted_wrt (\<lambda>a b. m_score a \<ge> m_score b)
          (sort_by_score_desc (score_all kb (normalizeQuery query)))"
    using sort_by_score_desc_stable by (simp add: stable_descending_def)
  then show ?thesis
    by (simp add: retrieveArticles_matches slice_from_start_sorted sorted_wrt_filter)
qed

lemma matches_positive:
  "m \<in> set (matches (retrieveArticles kb query topN)) \<Longrightarrow> 0 < m_score m"
  by (simp add: retrieveArticles_matches)

lemma sorted_desc_hd_max:
  "sorted_wrt (\<lambda>a b. m_score a \<ge> m_score b) xs \<Longrightarrow> m \<in> set xs \<Longrightarrow> m_score m \<le> m_score (hd xs)"
  by (cases xs) auto

theorem lowConfidence_iff_top_below_9_counterexample:
  "normalizeQuery ''xyz'' = [''xyz'']
   \<and> matches (retrieveArticles example_kb ''xyz'' 3) = []
   \<and> lowConfidence (retrieveArticles example_kb ''xyz'' 3)"
  by code_simp

text \<open>
  C4: for a query with at least one token, \<open>lowConfidence\<close> is true exactly when
  \<open>topScore\<close> is below 9, where \<open>topScore\<close> is the score of the first returned match, the
  greatest of the returned scores, all positive; when no match is returned, \<open>topScore\<close>
  is 0 and \<open>lowConfidence\<close> is true. The counterexample: the query \<open>"xyz"\<close> matches no
  article, and \<open>lowConfidence\<close> is true.
\<close>

theorem lowConfidence_iff_top_below_9:
  assumes "normalizeQuery query \<noteq> []"
  shows "(matches (retrieveArticles kb query topN) \<noteq> [] \<longrightarrow>
            lowConfidence (retrieveArticles kb query topN)
              = (m_score (hd (matches (retrieveArticles kb query topN))) < 9)
            \<and> topScore (retrieveArticles kb query topN)
              = Some (m_score (hd (matches (retrieveArticles kb query topN))))
            \<and> (\<forall>m \<in> set (matches (retrieveArticles kb query topN)).
                  0 < m_score m
                  \<and> m_score m \<le> m_score (hd (matches (retrieveArticles kb query topN)))))
       \<and> (matches (retrieveArticles kb query topN) = [] \<longrightarrow>
            lowConfidence (retrieveArticles kb query topN)
            \<and> topScore (retrieveArticles kb query topN) = Some 0)"
proof -
  let ?R = "retrieveArticles kb query topN"
  have low: "lowConfidence ?R = ((if matches ?R \<noteq> [] then m_score (hd (matches ?R)) else 0) < 9)"
    using assms by (simp add: retrieveArticles_def Let_def)
  have top: "topScore ?R = Some (if matches ?R \<noteq> [] then m_score (hd (matches ?R)) else 0)"
    using assms by (simp add: retrieveArticles_def Let_def)
  have mx: "\<forall>m \<in> set (matches ?R). 0 < m_score m \<and> m_score m \<le> m_score (hd (matches ?R))"
    using matches_positive sorted_desc_hd_max [OF matches_sorted] by blast
  show ?thesis using low top mx by simp
qed

theorem lowConfidence_iff_top_below_9_witness:
  "normalizeQuery ''outlook email smtp'' \<noteq> []
   \<and> map m_score (matches (retrieveArticles example_kb ''outlook email smtp'' 3)) = [9]
   \<and> \<not> lowConfidence (retrieveArticles example_kb ''outlook email smtp'' 3)
   \<and> normalizeQuery ''printer'' \<noteq> []
   \<and> map m_score (matches (retrieveArticles example_kb ''printer'' 3)) = [4, 4]
   \<and> lowConfidence (retrieveArticles example_kb ''printer'' 3)
   \<and> normalizeQuery ''xyz'' \<noteq> []
   \<and> matches (retrieveArticles example_kb ''xyz'' 3) = []
   \<and> lowConfidence (retrieveArticles example_kb ''xyz'' 3)
   \<and> topScore (retrieveArticles example_kb ''xyz'' 3) = Some 0"
proof -
  have q1: "normalizeQuery ''outlook email smtp'' \<noteq> []" by code_simp
  have q2: "normalizeQuery ''printer'' \<noteq> []" by code_simp
  have q3: "normalizeQuery ''xyz'' \<noteq> []" by code_simp
  have m1: "map m_score (matches (retrieveArticles example_kb ''outlook email smtp'' 3)) = [9]"
    by code_simp
  have m2: "map m_score (matches (retrieveArticles example_kb ''printer'' 3)) = [4, 4]"
    by code_simp
  have m3: "matches (retrieveArticles example_kb ''xyz'' 3) = []"
    by code_simp
  have n1: "matches (retrieveArticles example_kb ''outlook email smtp'' 3) \<noteq> []"
           "m_score (hd (matches (retrieveArticles example_kb ''outlook email smtp'' 3))) = 9"
    using m1 by (auto simp: hd_map [symmetric])
  have n2: "matches (retrieveArticles example_kb ''printer'' 3) \<noteq> []"
           "m_score (hd (matches (retrieveArticles example_kb ''printer'' 3))) = 4"
    using m2 by (auto simp: hd_map [symmetric])
  show ?thesis
    using q1 q2 q3 m1 m2 m3 n1 n2
      lowConfidence_iff_top_below_9 [OF q1, of example_kb 3]
      lowConfidence_iff_top_below_9 [OF q2, of example_kb 3]
      lowConfidence_iff_top_below_9 [OF q3, of example_kb 3]
    by simp
qed

end
